theory Spec2Isabelle
  imports Complex_Main "HOL-Library.Word" "HOL-Library.Code_Target_Nat"
begin

unbundle bit_operations_syntax

section \<open>TMC429 register-access driver (tmc/ic/TMC429/TMC429.c)\<close>

text \<open>
  The driver exchanges 4-byte SPI telegrams with the TMC429. Every function of the C file
  is embedded as a HOL function that threads the state of the SPI transport explicitly.
  \<^item> \<open>uint8_t\<close> is \<open>8 word\<close>, \<open>int32_t\<close> and \<open>uint32_t\<close> are \<open>32 word\<close>
    (read with \<open>sint\<close> resp. \<open>uint\<close>).
  \<^item> The arrays \<open>Read[4]\<close>, \<open>Write[4]\<close>, \<open>Bytes[3]\<close>, \<open>Data[3]\<close> are lists.
  \<^item> \<open>ReadWriteSPI(SPI_DEV_TMC429, b, last)\<close> is supplied by the user of the driver; it
    is the parameter \<open>spi\<close>, a function from the byte sent, the chip-select flag and the
    transport's state to the byte received and the next state.
  \<^item> The header TMC429.h is not part of the sources at hand: the constant
    \<open>TMC429_READ\<close> and the address macros used by the C file are the fields of the record
    \<open>tmc429_h\<close>, over which every function that mentions them is parametrised.
  \<^item> The read functions fill only \<open>Write[0]\<close> of their local array before the exchange;
    the indeterminate contents of \<open>Write[1..3]\<close> are the parameter \<open>u\<close>.
\<close>

type_synonym u8 = "8 word"
type_synonym i32 = "32 word"
type_synonym u32 = "32 word"

type_synonym 's spi = "u8 \<Rightarrow> bool \<Rightarrow> 's \<Rightarrow> u8 \<times> 's"

record tmc429_h =
  TMC429_READ :: u8
  TMC429_IDX_REFCONF_RM :: "u8 \<Rightarrow> u8"
  TMC429_IDX_PULSEDIV_RAMPDIV :: "u8 \<Rightarrow> u8"
  TMC429_IDX_PMUL_PDIV :: "u8 \<Rightarrow> u8"
  TMC429_IDX_AMAX :: "u8 \<Rightarrow> u8"

subsection \<open>Telegram exchange\<close>

text \<open>\<open>ReadWrite429(Read, Write)\<close>: four transfers, the chip select released after the
  fourth; the result is the filled \<open>Read\<close> array and the transport's state.\<close>

definition ReadWrite429 :: "'s spi \<Rightarrow> u8 list \<Rightarrow> 's \<Rightarrow> u8 list \<times> 's" where
  "ReadWrite429 spi Write s0 =
     (let (r0, s1) = spi (Write ! 0) False s0;
          (r1, s2) = spi (Write ! 1) False s1;
          (r2, s3) = spi (Write ! 2) False s2;
          (r3, s4) = spi (Write ! 3) True s3
      in ([r0, r1, r2, r3], s4))"

subsection \<open>Write accessors\<close>

definition Write429Bytes :: "'s spi \<Rightarrow> u8 \<Rightarrow> u8 list \<Rightarrow> 's \<Rightarrow> 's" where
  "Write429Bytes spi Address Bytes s =
     snd (ReadWrite429 spi [Address, Bytes ! 0, Bytes ! 1, Bytes ! 2] s)"



text \<open>\<open>Value >> 8\<close> on \<open>int32_t\<close> is the arithmetic shift; the assignment to a
  \<open>uint8_t\<close> keeps the low eight bits (\<open>ucast\<close>).\<close>

definition Write429Short :: "'s spi \<Rightarrow> u8 \<Rightarrow> i32 \<Rightarrow> 's \<Rightarrow> 's" where
  "Write429Short spi Address Value s =
     snd (ReadWrite429 spi
            [Address, 0, ucast (signed_drop_bit 8 Value), ucast (Value AND 0xFF)] s)"

definition Write429Int :: "'s spi \<Rightarrow> u8 \<Rightarrow> i32 \<Rightarrow> 's \<Rightarrow> 's" where
  "Write429Int spi Address Value s =
     snd (ReadWrite429 spi
            [Address, ucast (signed_drop_bit 16 Value), ucast (signed_drop_bit 8 Value),
             ucast (Value AND 0xFF)] s)"

subsection \<open>Read accessors\<close>

definition Read429Status :: "'s spi \<Rightarrow> 's \<Rightarrow> u8 \<times> 's" where
  "Read429Status spi s = spi 0x01 True s"

text \<open>\<open>Read429Bytes\<close> returns the status byte and the filled \<open>Bytes\<close> array.\<close>

definition Read429Bytes ::
  "tmc429_h \<Rightarrow> 's spi \<Rightarrow> u8 \<times> u8 \<times> u8 \<Rightarrow> u8 \<Rightarrow> 's \<Rightarrow> (u8 \<times> u8 list) \<times> 's" where
  "Read429Bytes h spi u Address s =
     (case u of (u1, u2, u3) \<Rightarrow>
        let (Read, s') = ReadWrite429 spi [Address OR TMC429_READ h, u1, u2, u3] s
        in ((Read ! 0, [Read ! 1, Read ! 2, Read ! 3]), s'))"

text \<open>\<open>Read429SingleByte\<close> returns \<open>Read[Index+1]\<close>; \<open>Index + 1\<close> is computed in
  \<open>int\<close>, so it does not wrap. The array has four elements: an access beyond them is
  outside the object, and the model returns \<open>None\<close> for it.\<close>

definition Read429SingleByte ::
  "tmc429_h \<Rightarrow> 's spi \<Rightarrow> u8 \<times> u8 \<times> u8 \<Rightarrow> u8 \<Rightarrow> u8 \<Rightarrow> 's \<Rightarrow> u8 option \<times> 's" where
  "Read429SingleByte h spi u Address Index s =
     (case u of (u1, u2, u3) \<Rightarrow>
        let (Read, s') = ReadWrite429 spi [Address OR TMC429_READ h, u1, u2, u3] s
        in ((if unat Index + 1 < length Read then Some (Read ! (unat Index + 1)) else None),
            s'))"

text \<open>The decoding step of \<open>Read429Int12\<close>, from the filled \<open>Read\<close> array to the result.\<close>

definition Int12_of :: "u8 list \<Rightarrow> i32" where
  "Int12_of Read =
     (let Result = push_bit 8 (ucast (Read ! 2)) OR ucast (Read ! 3)
      in if Result AND 0x00000800 \<noteq> 0 then Result OR 0xFFFFF000 else Result)"

text \<open>The decoding as the specification words it (4.3): the low 12 bits of the two low
  payload bytes, sign-extended with bit 11 as the sign.\<close>

definition sign_extend12 :: "u8 \<Rightarrow> u8 \<Rightarrow> i32" where
  "sign_extend12 b2 b3 = signed_take_bit 11 (push_bit 8 (ucast b2) OR ucast b3)"

definition Read429Int12 ::
  "tmc429_h \<Rightarrow> 's spi \<Rightarrow> u8 \<times> u8 \<times> u8 \<Rightarrow> u8 \<Rightarrow> 's \<Rightarrow> i32 \<times> 's" where
  "Read429Int12 h spi u Address s =
     (case u of (u1, u2, u3) \<Rightarrow>
        let (Read, s') = ReadWrite429 spi [Address OR TMC429_READ h, u1, u2, u3] s
        in (Int12_of Read, s'))"



subsection \<open>Read-modify-write setters\<close>

definition Set429RampMode ::
  "tmc429_h \<Rightarrow> 's spi \<Rightarrow> u8 \<times> u8 \<times> u8 \<Rightarrow> u8 \<Rightarrow> u8 \<Rightarrow> 's \<Rightarrow> 's" where
  "Set429RampMode h spi u Axis RampMode s =
     (case u of (u1, u2, u3) \<Rightarrow>
        let (Read, s1) =
              ReadWrite429 spi [TMC429_IDX_REFCONF_RM h Axis OR TMC429_READ h, u1, u2, u3] s
        in snd (ReadWrite429 spi
                  [TMC429_IDX_REFCONF_RM h Axis, Read ! 1, Read ! 2, RampMode] s1))"

definition Set429SwitchMode ::
  "tmc429_h \<Rightarrow> 's spi \<Rightarrow> u8 \<times> u8 \<times> u8 \<Rightarrow> u8 \<Rightarrow> u8 \<Rightarrow> 's \<Rightarrow> 's" where
  "Set429SwitchMode h spi u Axis SwitchMode s =
     (case u of (u1, u2, u3) \<Rightarrow>
        let (Read, s1) =
              ReadWrite429 spi [TMC429_IDX_REFCONF_RM h Axis OR TMC429_READ h, u1, u2, u3] s
        in snd (ReadWrite429 spi
                  [TMC429_IDX_REFCONF_RM h Axis, Read ! 1, SwitchMode, Read ! 3] s1))"

subsection \<open>Observing the bus\<close>

text \<open>A transport that behaves as \<open>spi\<close> and appends every call to a log: the byte sent,
  the chip-select flag and the byte received.\<close>

type_synonym xfer = "u8 \<times> bool \<times> u8"

definition logged :: "'s spi \<Rightarrow> ('s \<times> xfer list) spi" where
  "logged spi b fin st =
     (case st of (s, tr) \<Rightarrow>
        let (r, s') = spi b fin s in (r, (s', tr @ [(b, fin, r)])))"

definition sent :: "xfer \<Rightarrow> u8" where
  "sent x = fst x"

definition final :: "xfer \<Rightarrow> bool" where
  "final x = fst (snd x)"

definition received :: "xfer \<Rightarrow> u8" where
  "received x = snd (snd x)"

text \<open>The loopback transport returns each byte it is sent.\<close>

definition loopback :: "unit spi" where
  "loopback b fin s = (b, s)"

text \<open>A scripted transport answers with the bytes of a list, one per transfer, and with
  zero once the list is used up.\<close>

definition scripted :: "(u8 list) spi" where
  "scripted b fin rs = (case rs of [] \<Rightarrow> (0, []) | r # rs' \<Rightarrow> (r, rs'))"

subsection \<open>Floating point\<close>

text \<open>
  \<open>SetAMax\<close> computes in \<open>double\<close> (the constants \<open>128.0\<close>, \<open>0.988\<close> and \<open>8.0\<close> are
  doubles) and stores \<open>p\<close> and \<open>p_reduced\<close> in \<open>float\<close> variables. The values of both
  formats are rational numbers, and an IEEE 754 operation yields the exact result rounded
  to the nearest value of the format, ties to the even significand: \<open>round_to 53\<close> for
  binary64, \<open>round_to 24\<close> for binary32. The exponent range is not modelled: for a
  32-bit \<open>AMax\<close> the numbers that arise in \<open>SetAMax\<close> are zero or lie between \<open>2^-23\<close>
  and \<open>2^56\<close> (\<open>2^35\<close> for the masked \<open>AMax\<close>), far from overflow and from the subnormal
  numbers of either format. No divisor in \<open>SetAMax\<close> is zero.
\<close>

fun bitlen :: "nat \<Rightarrow> nat" where
  "bitlen n = (if n = 0 then 0 else Suc (bitlen (n div 2)))"

declare bitlen.simps [simp del]

definition pow2 :: "int \<Rightarrow> rat" where
  "pow2 e = (if 0 \<le> e then 2 ^ nat e else 1 / 2 ^ nat (- e))"

text \<open>\<open>ilog2 x\<close> is the binary exponent of a positive \<open>x\<close>: \<open>2 ^ ilog2 x \<le> x < 2 ^ (ilog2 x + 1)\<close>.\<close>

definition ilog2 :: "rat \<Rightarrow> int" where
  "ilog2 x = (if 1 \<le> x then int (bitlen (nat \<lfloor>x\<rfloor>)) - 1
              else - int (bitlen (nat (\<lceil>1 / x\<rceil> - 1))))"

text \<open>Rounding to the nearest integer, ties to even.\<close>

definition rne :: "rat \<Rightarrow> int" where
  "rne x = (let f = \<lfloor>x\<rfloor>; r = x - of_int f
            in if r < 1 / 2 then f else if 1 / 2 < r then f + 1
               else if even f then f else f + 1)"

definition round_to :: "nat \<Rightarrow> rat \<Rightarrow> rat" where
  "round_to prec x =
     (if x = 0 then 0
      else let e = ilog2 \<bar>x\<bar> - (int prec - 1)
           in of_int (rne (x / pow2 e)) * pow2 e)"

definition d_lit :: "rat \<Rightarrow> rat" where
  "d_lit q = round_to 53 q"

definition d_mul :: "rat \<Rightarrow> rat \<Rightarrow> rat" where
  "d_mul x y = round_to 53 (x * y)"

definition d_div :: "rat \<Rightarrow> rat \<Rightarrow> rat" where
  "d_div x y = round_to 53 (x / y)"

definition to_float :: "rat \<Rightarrow> rat" where
  "to_float x = round_to 24 x"

text \<open>
  The cast \<open>(int32_t) x\<close> of a double discards the fraction. ISO C defines it only when
  the integral part fits \<open>int32_t\<close>; what the target yields otherwise (the x86 conversion
  instruction gives \<open>0x80000000\<close>, the ARM one saturates) is the parameter \<open>oor\<close>.
\<close>

definition to_zero :: "rat \<Rightarrow> int" where
  "to_zero x = (if 0 \<le> x then \<lfloor>x\<rfloor> else \<lceil>x\<rceil>)"

definition d2i32 :: "(rat \<Rightarrow> i32) \<Rightarrow> rat \<Rightarrow> i32" where
  "d2i32 oor x =
     (if - (2 ^ 31) \<le> to_zero x \<and> to_zero x < 2 ^ 31 then word_of_int (to_zero x)
      else oor x)"

subsection \<open>SetAMax\<close>

text \<open>The two 4-bit fields of the pulse/ramp divider byte (\<open>Data[1]\<close> of the register).\<close>

definition pulse_div_of :: "u8 \<Rightarrow> int" where
  "pulse_div_of PulseRampDiv = uint (drop_bit 4 PulseRampDiv)"

definition ramp_div_of :: "u8 \<Rightarrow> int" where
  "ramp_div_of PulseRampDiv = uint (PulseRampDiv AND 0x0F)"

text \<open>The float \<open>p\<close>; \<open>AMax\<close> is the masked argument. The shift count is between 0 and 15,
  so \<open>1 << \<dots>\<close> does not overflow.\<close>

definition SetAMax_p :: "u32 \<Rightarrow> u8 \<Rightarrow> rat" where
  "SetAMax_p AMax PulseRampDiv =
     (let pulse_div = pulse_div_of PulseRampDiv; ramp_div = ramp_div_of PulseRampDiv
      in if ramp_div \<ge> pulse_div
         then to_float (d_div (of_int (uint AMax))
                          (d_mul 128 (of_int (2 ^ nat (ramp_div - pulse_div)))))
         else to_float (d_div (of_int (uint AMax))
                          (d_div 128 (of_int (2 ^ nat (pulse_div - ramp_div))))))"

definition SetAMax_p_reduced :: "u32 \<Rightarrow> u8 \<Rightarrow> rat" where
  "SetAMax_p_reduced AMax PulseRampDiv =
     to_float (d_mul (SetAMax_p AMax PulseRampDiv) (d_lit (988 / 1000)))"

text \<open>The body of the loop computes \<open>pmul\<close> in \<open>int32_t\<close>; the subtraction is the
  32-bit one.\<close>

definition SetAMax_pmul :: "(rat \<Rightarrow> i32) \<Rightarrow> rat \<Rightarrow> nat \<Rightarrow> i32" where
  "SetAMax_pmul oor p_reduced pdiv =
     d2i32 oor (d_mul (d_mul p_reduced 8) (of_int (2 ^ pdiv))) - 128"

function SetAMax_loop :: "(rat \<Rightarrow> i32) \<Rightarrow> rat \<Rightarrow> nat \<Rightarrow> i32 \<times> i32 \<Rightarrow> i32 \<times> i32" where
  "SetAMax_loop oor p_reduced pdiv (pm, pd) =
     (if pdiv \<le> 13
      then let pmul = SetAMax_pmul oor p_reduced pdiv
           in SetAMax_loop oor p_reduced (pdiv + 1)
                (if 0 \<le>s pmul \<and> pmul \<le>s 127 then (pmul + 128, of_nat pdiv) else (pm, pd))
      else (pm, pd))"
  by pat_completeness auto
termination
  by (relation "measure (\<lambda>(oor, p_reduced, pdiv, pmpd). 14 - pdiv)") auto

declare SetAMax_loop.simps [simp del]

text \<open>Modelled from the spec: \<open>Write429U16\<close> is declared outside the C file. SetAMax uses
  it to "write the clamped AMax value as a 16-bit register" (4.5, step 6), and the 16-bit
  variant of the write accessors zero-fills "the unused high payload byte" (4.2), the
  payload being sent most significant byte first.\<close>

definition Write429U16 :: "'s spi \<Rightarrow> u8 \<Rightarrow> u32 \<Rightarrow> 's \<Rightarrow> 's" where
  "Write429U16 spi Address Value s =
     snd (ReadWrite429 spi [Address, 0, ucast (drop_bit 8 Value), ucast Value] s)"

definition SetAMax ::
  "tmc429_h \<Rightarrow> (rat \<Rightarrow> i32) \<Rightarrow> 's spi \<Rightarrow> u8 \<times> u8 \<times> u8 \<Rightarrow> u8 \<Rightarrow> u32 \<Rightarrow> 's \<Rightarrow> u8 \<times> 's" where
  "SetAMax h oor spi u Motor AMax0 s0 =
     (let AMax = AMax0 AND 0x000007FF;
          ((status, Data), s1) =
             Read429Bytes h spi u (TMC429_IDX_PULSEDIV_RAMPDIV h Motor) s0;
          PulseRampDiv = Data ! 1;
          p_reduced = SetAMax_p_reduced AMax PulseRampDiv;
          (pm, pd) = SetAMax_loop oor p_reduced 0 (- 1, - 1);
          s2 = Write429Bytes spi (TMC429_IDX_PMUL_PDIV h Motor) [0, ucast pm, ucast pd] s1;
          s3 = Write429U16 spi (TMC429_IDX_AMAX h Motor) AMax s2
      in (0, s3))"

text \<open>The search as the specification words it (4.5, step 4): for a candidate \<open>pdiv\<close>,
  \<open>pmul = floor(p_reduced * 8 * 2^pdiv) - 128\<close>, and the candidate is valid when \<open>pmul\<close>
  lies within 0..127.\<close>

definition pmul_spec :: "rat \<Rightarrow> nat \<Rightarrow> int" where
  "pmul_spec p_reduced pdiv = \<lfloor>p_reduced * 8 * 2 ^ pdiv\<rfloor> - 128"

definition valid_spec :: "rat \<Rightarrow> nat \<Rightarrow> bool" where
  "valid_spec p_reduced pdiv \<longleftrightarrow> 0 \<le> pmul_spec p_reduced pdiv \<and> pmul_spec p_reduced pdiv \<le> 127"

text \<open>A header for evaluating the driver on examples: the read flag is bit 0, and the
  address macros put the axis above a register index.\<close>

definition example_h :: tmc429_h where
  "example_h =
     \<lparr> TMC429_READ = 0x01,
       TMC429_IDX_REFCONF_RM = (\<lambda>m. 0x14 OR push_bit 5 m),
       TMC429_IDX_PULSEDIV_RAMPDIV = (\<lambda>m. 0x18 OR push_bit 5 m),
       TMC429_IDX_PMUL_PDIV = (\<lambda>m. 0x12 OR push_bit 5 m),
       TMC429_IDX_AMAX = (\<lambda>m. 0x0C OR push_bit 5 m) \<rparr>"

text \<open>Two conversions of out-of-range doubles: the x86 one and a saturating one.\<close>

definition oor_x86 :: "rat \<Rightarrow> i32" where
  "oor_x86 x = 0x80000000"

definition oor_sat :: "rat \<Rightarrow> i32" where
  "oor_sat x = (if x < 0 then 0x80000000 else 0x7FFFFFFF)"

section \<open>Properties\<close>

subsection \<open>The telegram exchange on the bus\<close>

lemma ReadWrite429_logged:
  "ReadWrite429 (logged spi) W (s, tr) =
     (case ReadWrite429 spi W s of (R, s') \<Rightarrow>
        (R, (s', tr @ [(W ! 0, False, R ! 0), (W ! 1, False, R ! 1),
                       (W ! 2, False, R ! 2), (W ! 3, True, R ! 3)])))"
  by (simp add: ReadWrite429_def logged_def split: prod.split)

lemma ReadWrite429_loopback:
  "ReadWrite429 loopback [w0, w1, w2, w3] s = ([w0, w1, w2, w3], s)"
  by (simp add: ReadWrite429_def loopback_def)

text \<open>
  C5. For every write buffer of four bytes, \<open>ReadWrite429\<close> makes exactly four
  transfers: the bytes sent are those of the buffer in order, the chip-select flag is
  \<open>FALSE\<close> in the first three and \<open>TRUE\<close> in the fourth, and the \<open>Read\<close> array holds the
  four bytes received, in order. Observing the bus does not change the exchange. Against
  the loopback transport the \<open>Read\<close> array equals the \<open>Write\<close> array.
\<close>

theorem ReadWrite429_four_transfers:
  "(case ReadWrite429 (logged spi) [w0, w1, w2, w3] (s, []) of
      (Read, (s', tr)) \<Rightarrow>
        map sent tr = [w0, w1, w2, w3] \<and>
        map final tr = [False, False, False, True] \<and>
        map received tr = Read \<and>
        (Read, s') = ReadWrite429 spi [w0, w1, w2, w3] s) \<and>
   fst (ReadWrite429 loopback [w0, w1, w2, w3] ()) = [w0, w1, w2, w3]"
  by (simp add: ReadWrite429_logged ReadWrite429_loopback sent_def final_def received_def
        split: prod.split) (simp add: ReadWrite429_def split: prod.splits)

subsection \<open>Rounding\<close>

lemma pow2_powi: "pow2 e = 2 powi e"
  by (simp add: pow2_def power_int_def inverse_eq_divide power_one_over)

lemma pow2_pos: "0 < pow2 e"
  by (simp add: pow2_powi)

lemma pow2_add: "pow2 (a + b) = pow2 a * pow2 b"
  by (simp add: pow2_powi power_int_add)

lemma pow2_nat: "pow2 (int n) = 2 ^ n"
  by (simp add: pow2_def)

lemma pow2_mono: "a \<le> b \<Longrightarrow> pow2 a \<le> pow2 b"
  by (simp add: pow2_powi power_int_increasing)

lemma pow2_inverse: "pow2 (- a) = 1 / pow2 a"
  by (simp add: pow2_powi power_int_minus inverse_eq_divide)

lemma bitlen_bounds: "0 < n \<Longrightarrow> 2 ^ (bitlen n - 1) \<le> n \<and> n < 2 ^ bitlen n"
proof (induction n rule: bitlen.induct)
  case (1 n)
  show ?case
  proof (cases "n div 2 = 0")
    case True
    with \<open>0 < n\<close> have "n = 1" by arith
    then show ?thesis by (simp add: bitlen.simps)
  next
    case False
    then have pos: "0 < n div 2" by simp
    from "1.prems" have n0: "n \<noteq> 0" by simp
    from "1.IH" [OF n0 pos]
    have lo: "2 ^ (bitlen (n div 2) - 1) \<le> n div 2" and hi: "n div 2 < 2 ^ bitlen (n div 2)"
      by simp_all
    have bl: "bitlen n = Suc (bitlen (n div 2))"
      using n0 by (subst bitlen.simps) simp
    have blpos: "0 < bitlen (n div 2)"
      using pos by (subst bitlen.simps) simp
    have "2 ^ (bitlen n - 1) = 2 * 2 ^ (bitlen (n div 2) - 1)"
      using blpos by (simp add: bl flip: power_Suc)
    also have "\<dots> \<le> 2 * (n div 2)" using lo by simp
    also have "\<dots> \<le> n" by simp
    finally have A: "2 ^ (bitlen n - 1) \<le> n" .
    have "n < 2 * (n div 2) + 2" by arith
    also have "\<dots> \<le> 2 * 2 ^ bitlen (n div 2)" using hi by simp
    finally have B: "n < 2 ^ bitlen n" by (simp add: bl)
    from A B show ?thesis ..
  qed
qed

lemma ilog2_bounds:
  assumes "0 < x"
  shows "pow2 (ilog2 x) \<le> x \<and> x < pow2 (ilog2 x + 1)"
proof (cases "1 \<le> x")
  case True
  define n where "n = nat \<lfloor>x\<rfloor>"
  from True have n1: "0 < n" by (simp add: n_def)
  have "0 \<le> \<lfloor>x\<rfloor>" using True by simp
  then have nf: "(of_nat n :: rat) = of_int \<lfloor>x\<rfloor>" by (simp add: n_def)
  have fl: "of_nat n \<le> x" "x < of_nat n + 1"
    unfolding nf by linarith+
  from bitlen_bounds [OF n1] have lo: "2 ^ (bitlen n - 1) \<le> n" and hi: "n < 2 ^ bitlen n"
    by simp_all
  have blpos: "0 < bitlen n" using n1 by (subst bitlen.simps) simp
  have il: "ilog2 x = int (bitlen n - 1)"
    using True blpos by (simp add: ilog2_def n_def)
  have "pow2 (ilog2 x) = of_nat (2 ^ (bitlen n - 1))"
    by (simp add: il pow2_nat)
  also have "\<dots> \<le> of_nat n" using lo by (simp only: of_nat_le_iff)
  also have "\<dots> \<le> x" by (rule fl)
  finally have A: "pow2 (ilog2 x) \<le> x" .
  have "n + 1 \<le> 2 ^ bitlen n" using hi by simp
  then have "(of_nat (n + 1) :: rat) \<le> of_nat (2 ^ bitlen n)" by (simp only: of_nat_le_iff)
  then have "of_nat n + 1 \<le> (2 :: rat) ^ bitlen n" by simp
  with fl have "x < 2 ^ bitlen n" by simp
  also have "\<dots> = pow2 (ilog2 x + 1)"
    using blpos by (simp add: il flip: pow2_nat)
  finally show ?thesis using A by simp
next
  case False
  define y where "y = 1 / x"
  define m where "m = nat (\<lceil>y\<rceil> - 1)"
  from False assms have y1: "1 < y" by (simp add: y_def)
  then have "2 \<le> \<lceil>y\<rceil>" by (simp add: le_ceiling_iff)
  then have m1: "0 < m" by (simp add: m_def)
  have im: "int m = \<lceil>y\<rceil> - 1" using \<open>2 \<le> \<lceil>y\<rceil>\<close> by (simp add: m_def)
  have ce: "of_nat m < y" "y \<le> of_nat m + 1"
  proof -
    have "of_int (\<lceil>y\<rceil> - 1) < y" by linarith
    then show "of_nat m < y" by (simp flip: im)
    have "y \<le> of_int \<lceil>y\<rceil>" by simp
    also have "\<dots> = of_int (int m + 1)" by (simp add: im)
    finally show "y \<le> of_nat m + 1" by simp
  qed
  from bitlen_bounds [OF m1] have lo: "2 ^ (bitlen m - 1) \<le> m" and hi: "m < 2 ^ bitlen m"
    by simp_all
  have blpos: "0 < bitlen m" using m1 by (subst bitlen.simps) simp
  have il: "ilog2 x = - int (bitlen m)"
    using False by (simp add: ilog2_def m_def y_def)
  have "m + 1 \<le> 2 ^ bitlen m" using hi by simp
  then have "(of_nat (m + 1) :: rat) \<le> of_nat (2 ^ bitlen m)" by (simp only: of_nat_le_iff)
  then have "y \<le> 2 ^ bitlen m" using ce by simp
  then have "1 / 2 ^ bitlen m \<le> x"
    using assms by (simp add: y_def field_simps)
  then have A: "pow2 (ilog2 x) \<le> x"
    by (simp add: il pow2_inverse pow2_nat)
  have "(2 :: rat) ^ (bitlen m - 1) \<le> of_nat m"
    using of_nat_mono [OF lo, where ?'a = rat] by simp
  then have "2 ^ (bitlen m - 1) < y" using ce(1) by (rule le_less_trans)
  then have "x < 1 / 2 ^ (bitlen m - 1)"
    using assms by (simp add: y_def field_simps)
  also have "\<dots> = pow2 (- int (bitlen m - 1))"
    by (simp add: pow2_inverse pow2_nat)
  also have "- int (bitlen m - 1) = ilog2 x + 1"
    using blpos by (simp add: il)
  finally show ?thesis using A by simp
qed

lemma ilog2_unique:
  assumes "0 < x" "pow2 e \<le> x" "x < pow2 (e + 1)"
  shows "ilog2 x = e"
proof (rule ccontr)
  assume ne: "ilog2 x \<noteq> e"
  from ilog2_bounds [OF assms(1)]
  have lo: "pow2 (ilog2 x) \<le> x" and hi: "x < pow2 (ilog2 x + 1)" by simp_all
  from ne consider "ilog2 x + 1 \<le> e" | "e + 1 \<le> ilog2 x" by linarith
  then show False
  proof cases
    case 1
    then have "pow2 (ilog2 x + 1) \<le> pow2 e" by (rule pow2_mono)
    with hi assms(2) show False by simp
  next
    case 2
    then have "pow2 (e + 1) \<le> pow2 (ilog2 x)" by (rule pow2_mono)
    with lo assms(3) show False by simp
  qed
qed

lemma ilog2_scale:
  assumes "0 < x"
  shows "ilog2 (x * pow2 k) = ilog2 x + k"
proof (rule ilog2_unique)
  from ilog2_bounds [OF assms]
  have lo: "pow2 (ilog2 x) \<le> x" and hi: "x < pow2 (ilog2 x + 1)" by simp_all
  show "0 < x * pow2 k" using assms pow2_pos by simp
  show "pow2 (ilog2 x + k) \<le> x * pow2 k"
    using lo pow2_pos [of k] by (simp add: pow2_add)
  have "x * pow2 k < pow2 (ilog2 x + 1) * pow2 k"
    using hi pow2_pos [of k] by simp
  then show "x * pow2 k < pow2 (ilog2 x + k + 1)"
    by (simp add: pow2_add ac_simps)
qed

lemma rne_of_int: "rne (of_int n) = n"
  by (simp add: rne_def)

lemma rne_nonneg: "0 \<le> x \<Longrightarrow> 0 \<le> rne x"
  by (auto simp: rne_def Let_def)

lemma rne_le: "x \<le> of_int n \<Longrightarrow> rne x \<le> n"
proof -
  assume a: "x \<le> of_int n"
  have "\<lfloor>x\<rfloor> \<le> n" using a by (simp add: floor_le_iff)
  show ?thesis
  proof (cases "x = of_int \<lfloor>x\<rfloor>")
    case True
    then have "rne x = \<lfloor>x\<rfloor>" by (simp add: rne_def)
    with \<open>\<lfloor>x\<rfloor> \<le> n\<close> show ?thesis by simp
  next
    case False
    then have "of_int \<lfloor>x\<rfloor> < x" by (metis of_int_floor_le order_less_le)
    with a have "\<lfloor>x\<rfloor> < n" by (metis floor_less_iff le_less_trans not_less of_int_floor_le order_refl floor_of_int le_floor_iff less_le)
    moreover have "rne x \<le> \<lfloor>x\<rfloor> + 1" by (simp add: rne_def Let_def)
    ultimately show ?thesis by simp
  qed
qed

lemma round_to_nonneg:
  assumes "0 \<le> x"
  shows "0 \<le> round_to prec x"
proof (cases "x = 0")
  case True
  then show ?thesis by (simp add: round_to_def)
next
  case False
  define e where "e = ilog2 \<bar>x\<bar> - (int prec - 1)"
  have "0 \<le> x / pow2 e" using assms pow2_pos [of e] by simp
  then have "0 \<le> rne (x / pow2 e)" by (rule rne_nonneg)
  then have "0 \<le> of_int (rne (x / pow2 e)) * pow2 e"
    using pow2_pos [of e] by simp
  then show ?thesis
    using False by (simp add: round_to_def Let_def e_def)
qed

lemma round_to_scale: "round_to prec (x * pow2 k) = round_to prec x * pow2 k"
proof (cases "x = 0")
  case True
  then show ?thesis by (simp add: round_to_def)
next
  case False
  then have ax: "0 < \<bar>x\<bar>" by simp
  have nz: "x * pow2 k \<noteq> 0" using False pow2_pos [of k] by simp
  have "\<bar>x * pow2 k\<bar> = \<bar>x\<bar> * pow2 k"
    using pow2_pos [of k] by (simp add: abs_mult)
  then have e: "ilog2 \<bar>x * pow2 k\<bar> - (int prec - 1) = (ilog2 \<bar>x\<bar> - (int prec - 1)) + k"
    using ilog2_scale [OF ax, of k] by simp
  have q: "x * pow2 k / pow2 (e + k) = x / pow2 e" for e
    using pow2_pos [of k] by (simp add: pow2_add)
  show ?thesis
    using False nz by (simp add: round_to_def Let_def e q pow2_add)
qed

text \<open>A number with at most \<open>prec\<close> significant bits is not changed by rounding.\<close>

lemma round_to_of_int:
  assumes "\<bar>n\<bar> < 2 ^ prec" "0 < prec"
  shows "round_to prec (of_int n) = of_int n"
proof (cases "n = 0")
  case True
  then show ?thesis by (simp add: round_to_def)
next
  case False
  define x :: rat where "x = \<bar>of_int n\<bar>"
  have xpos: "0 < x" using False by (simp add: x_def)
  have "x < pow2 (int prec)"
  proof -
    have "x = of_int \<bar>n\<bar>" by (simp add: x_def)
    also have "\<dots> < of_int (2 ^ prec)" using assms(1) by (simp only: of_int_less_iff)
    finally show ?thesis by (simp add: pow2_nat)
  qed
  with ilog2_bounds [OF xpos] have "pow2 (ilog2 x) < pow2 (int prec)" by simp
  then have "ilog2 x < int prec"
    by (metis not_less pow2_mono)
  define d where "d = nat (int prec - 1 - ilog2 x)"
  have e: "ilog2 x - (int prec - 1) = - int d"
    using \<open>ilog2 x < int prec\<close> by (simp add: d_def)
  have "of_int n / pow2 (- int d) = (of_int (n * 2 ^ d) :: rat)"
    by (simp add: pow2_inverse pow2_nat)
  then have "rne (of_int n / pow2 (- int d)) = n * 2 ^ d"
    by (simp only: rne_of_int)
  then show ?thesis
    using False by (simp add: round_to_def Let_def e pow2_inverse pow2_nat flip: x_def)
qed

lemma round_to_representable:
  assumes "\<bar>n\<bar> < 2 ^ prec" "0 < prec"
  shows "round_to prec (of_int n * pow2 e) = of_int n * pow2 e"
  by (simp add: round_to_scale round_to_of_int [OF assms])

text \<open>The result of rounding has at most \<open>prec\<close> significant bits, or is a power of two.\<close>

lemma round_to_form:
  assumes "0 < prec"
  shows "\<exists>n e. round_to prec x = of_int n * pow2 e \<and> \<bar>n\<bar> \<le> 2 ^ prec"
proof (cases "x = 0")
  case True
  have "round_to prec x = of_int 0 * pow2 0 \<and> \<bar>0::int\<bar> \<le> 2 ^ prec"
    using True by (simp add: round_to_def)
  then show ?thesis by blast
next
  case False
  then have ax: "0 < \<bar>x\<bar>" by simp
  define e where "e = ilog2 \<bar>x\<bar> - (int prec - 1)"
  define q where "q = x / pow2 e"
  have "\<bar>x\<bar> < pow2 (ilog2 \<bar>x\<bar> + 1)" using ilog2_bounds [OF ax] by simp
  also have "ilog2 \<bar>x\<bar> + 1 = int prec + e" by (simp add: e_def)
  finally have "\<bar>x\<bar> < 2 ^ prec * pow2 e" by (simp add: pow2_add pow2_nat)
  then have "\<bar>q\<bar> < 2 ^ prec"
    using pow2_pos [of e] by (simp add: q_def abs_divide pos_divide_less_eq)
  then have b1: "q \<le> of_int (2 ^ prec)" and b2: "- q \<le> of_int (2 ^ prec)" by simp_all
  have up: "rne q \<le> 2 ^ prec" using b1 by (rule rne_le)
  have "- (2 ^ prec) \<le> \<lfloor>q\<rfloor>" using b2 by (simp add: le_floor_iff)
  moreover have "\<lfloor>q\<rfloor> \<le> rne q" by (simp add: rne_def Let_def)
  ultimately have "\<bar>rne q\<bar> \<le> 2 ^ prec" using up by simp
  moreover have "round_to prec x = of_int (rne q) * pow2 e"
    using False by (simp add: round_to_def Let_def e_def q_def)
  ultimately show ?thesis by blast
qed

lemma double_of_float: "round_to 53 (to_float y * pow2 k) = to_float y * pow2 k"
proof -
  obtain n e where f: "round_to 24 y = of_int n * pow2 e" and n: "\<bar>n\<bar> \<le> 2 ^ 24"
    using round_to_form [of 24 y] by auto
  from n have n53: "\<bar>n\<bar> < 2 ^ 53" by simp
  have "to_float y * pow2 k = of_int n * pow2 (e + k)"
    by (simp add: to_float_def f pow2_add)
  then show ?thesis
    using round_to_representable [OF n53, of "e + k"] by simp
qed

lemma to_float_nonneg: "0 \<le> y \<Longrightarrow> 0 \<le> to_float y"
  by (simp add: to_float_def round_to_nonneg)

text \<open>The product in the loop is exact: \<open>p_reduced\<close> is a float, and the factors are
  powers of two.\<close>

lemma loop_product_exact:
  "d_mul (d_mul (to_float y) 8) (of_int (2 ^ pdiv)) = to_float y * 8 * 2 ^ pdiv"
proof -
  have 8: "(8 :: rat) = pow2 3" by (simp add: pow2_def)
  have p: "(of_int (2 ^ pdiv) :: rat) = pow2 (int pdiv)" by (simp add: pow2_nat)
  have "d_mul (to_float y) 8 = to_float y * pow2 3"
    unfolding d_mul_def 8 by (rule double_of_float)
  moreover have "d_mul (to_float y * pow2 3) (pow2 (int pdiv)) = to_float y * pow2 (3 + int pdiv)"
    unfolding d_mul_def using double_of_float [of y "3 + int pdiv"] by (simp add: pow2_add mult.assoc)
  ultimately show ?thesis
    by (simp add: p 8 pow2_add pow2_nat)
qed

subsection \<open>The search loop of SetAMax\<close>

lemma loop_step:
  "pdiv \<le> 13 \<Longrightarrow>
   SetAMax_loop oor pr pdiv (pm, pd) =
     SetAMax_loop oor pr (Suc pdiv)
       (if 0 \<le>s SetAMax_pmul oor pr pdiv \<and> SetAMax_pmul oor pr pdiv \<le>s 127
        then (SetAMax_pmul oor pr pdiv + 128, of_nat pdiv) else (pm, pd))"
  by (subst SetAMax_loop.simps) (simp add: Let_def)

lemma loop_exit: "13 < pdiv \<Longrightarrow> SetAMax_loop oor pr pdiv acc = acc"
  by (cases acc) (simp add: SetAMax_loop.simps)

lemma loop_none:
  assumes "\<forall>d. i \<le> d \<and> d \<le> 13 \<longrightarrow>
             \<not> (0 \<le>s SetAMax_pmul oor pr d \<and> SetAMax_pmul oor pr d \<le>s 127)"
  shows "SetAMax_loop oor pr i acc = acc"
  using assms
proof (induction "14 - i" arbitrary: i)
  case 0
  then show ?case by (simp add: loop_exit)
next
  case (Suc k)
  then have i: "i \<le> 13" by simp
  obtain pm pd where acc: "acc = (pm, pd)" by (cases acc)
  from Suc.prems i
  have nv: "\<not> (0 \<le>s SetAMax_pmul oor pr i \<and> SetAMax_pmul oor pr i \<le>s 127)" by simp
  have "SetAMax_loop oor pr i acc = SetAMax_loop oor pr (Suc i) acc"
    unfolding acc by (simp only: loop_step [OF i] nv if_False)
  also have "\<dots> = acc"
    using Suc.hyps(2) Suc.prems by (intro Suc.hyps(1)) auto
  finally show ?case .
qed

lemma loop_some:
  assumes "i \<le> D" "D \<le> 13"
    and "0 \<le>s SetAMax_pmul oor pr D \<and> SetAMax_pmul oor pr D \<le>s 127"
    and "\<forall>d. D < d \<and> d \<le> 13 \<longrightarrow>
             \<not> (0 \<le>s SetAMax_pmul oor pr d \<and> SetAMax_pmul oor pr d \<le>s 127)"
  shows "SetAMax_loop oor pr i acc = (SetAMax_pmul oor pr D + 128, of_nat D)"
  using assms(1)
proof (induction "D - i" arbitrary: i acc)
  case 0
  then have iD: "i = D" by simp
  obtain pm pd where acc: "acc = (pm, pd)" by (cases acc)
  have "SetAMax_loop oor pr D acc =
          SetAMax_loop oor pr (Suc D) (SetAMax_pmul oor pr D + 128, of_nat D)"
    unfolding acc using assms(3) by (simp add: loop_step [OF assms(2)])
  also have "\<dots> = (SetAMax_pmul oor pr D + 128, of_nat D)"
    using assms(4) by (intro loop_none) auto
  finally show ?case by (simp add: iD)
next
  case (Suc k)
  then have i: "i \<le> 13" "Suc i \<le> D" "k = D - Suc i" using assms(2) by simp_all
  obtain pm pd where acc: "acc = (pm, pd)" by (cases acc)
  show ?case
    unfolding acc loop_step [OF i(1)] by (rule Suc.hyps(1) [OF i(3) i(2)])
qed

text \<open>The value of \<open>pmul\<close> when the product fits \<open>int32_t\<close>, and when it does not.\<close>

lemma pmul_in_range:
  assumes "0 \<le> y" "to_float y * 8 * 2 ^ d < 2 ^ 31"
  shows "sint (SetAMax_pmul oor (to_float y) d) = pmul_spec (to_float y) d"
proof -
  define x where "x = to_float y * 8 * 2 ^ d"
  have x0: "0 \<le> x" using to_float_nonneg [OF assms(1)] by (simp add: x_def)
  have t: "to_zero x = \<lfloor>x\<rfloor>" using x0 by (simp add: to_zero_def)
  have f0: "0 \<le> \<lfloor>x\<rfloor>" using x0 by simp
  have "x < of_int (2 ^ 31)" using assms(2) by (simp add: x_def)
  then have f1: "\<lfloor>x\<rfloor> < 2 ^ 31" by (simp only: floor_less_iff)
  have "SetAMax_pmul oor (to_float y) d = d2i32 oor x - 128"
    by (simp only: SetAMax_pmul_def loop_product_exact x_def)
  also have "\<dots> = word_of_int \<lfloor>x\<rfloor> - 128"
    using f0 f1 by (simp add: d2i32_def t)
  also have "\<dots> = word_of_int (\<lfloor>x\<rfloor> - 128)" by simp
  finally have "sint (SetAMax_pmul oor (to_float y) d) = signed_take_bit 31 (\<lfloor>x\<rfloor> - 128)"
    by (simp only: sint_sbintrunc') simp
  also have "\<dots> = \<lfloor>x\<rfloor> - 128"
    using f0 f1 by (intro signed_take_bit_int_eq_self) simp_all
  finally show ?thesis by (simp add: pmul_spec_def x_def)
qed

lemma pmul_out_of_range:
  assumes "0 \<le> y" "\<not> to_float y * 8 * 2 ^ d < 2 ^ 31"
  shows "SetAMax_pmul oor (to_float y) d = oor (to_float y * 8 * 2 ^ d) - 128"
    and "\<not> valid_spec (to_float y) d"
proof -
  define x where "x = to_float y * 8 * 2 ^ d"
  have x0: "0 \<le> x" using to_float_nonneg [OF assms(1)] by (simp add: x_def)
  have t: "to_zero x = \<lfloor>x\<rfloor>" using x0 by (simp add: to_zero_def)
  have "of_int (2 ^ 31) \<le> x" using assms(2) by (simp add: x_def)
  then have f1: "2 ^ 31 \<le> \<lfloor>x\<rfloor>" by (simp only: le_floor_iff)
  have "SetAMax_pmul oor (to_float y) d = d2i32 oor x - 128"
    by (simp only: SetAMax_pmul_def loop_product_exact x_def)
  also have "\<dots> = oor x - 128"
    using f1 by (simp add: d2i32_def t)
  finally show "SetAMax_pmul oor (to_float y) d = oor (to_float y * 8 * 2 ^ d) - 128"
    by (simp only: x_def)
  from f1 show "\<not> valid_spec (to_float y) d"
    by (simp add: valid_spec_def pmul_spec_def flip: x_def)
qed

lemma valid_in_range:
  assumes "0 \<le> y" "to_float y * 8 * 2 ^ d < 2 ^ 31"
  shows "(0 \<le>s SetAMax_pmul oor (to_float y) d \<and> SetAMax_pmul oor (to_float y) d \<le>s 127)
           \<longleftrightarrow> valid_spec (to_float y) d"
  by (simp add: word_sle_eq pmul_in_range [OF assms] valid_spec_def)


lemma pm_of_valid:
  assumes "0 \<le> y" "valid_spec (to_float y) d"
  shows "SetAMax_pmul oor (to_float y) d + 128 = word_of_int (pmul_spec (to_float y) d + 128)"
proof -
  have r: "to_float y * 8 * 2 ^ d < 2 ^ 31"
    using pmul_out_of_range(2) [OF assms(1), where d = d] assms(2) by blast
  have "SetAMax_pmul oor (to_float y) d = word_of_int (sint (SetAMax_pmul oor (to_float y) d))"
    by simp
  also have "\<dots> = word_of_int (pmul_spec (to_float y) d)"
    by (simp only: pmul_in_range [OF assms(1) r])
  finally show ?thesis by simp
qed

lemma p_reduced_float: "\<exists>y\<ge>0. SetAMax_p_reduced AMax PulseRampDiv = to_float y"
proof -
  have a: "(0 :: rat) \<le> of_int (uint AMax)"
    by (simp only: of_int_0_le_iff unsigned_greater_eq)
  have q: "0 \<le> to_float (d_div (of_int (uint AMax)) z)" if "0 \<le> z" for z
    unfolding to_float_def d_div_def
    by (intro round_to_nonneg divide_nonneg_nonneg a that)
  have z1: "0 \<le> d_mul 128 (of_int (2 ^ k))" for k :: nat
    unfolding d_mul_def by (intro round_to_nonneg) simp
  have z2: "0 \<le> d_div 128 (of_int (2 ^ k))" for k :: nat
    unfolding d_div_def by (intro round_to_nonneg) simp
  have ite: "0 \<le> (if c then a else b)" if "0 \<le> a" "0 \<le> b" for a b :: rat and c
    using that by simp
  have p: "0 \<le> SetAMax_p AMax PulseRampDiv"
    unfolding SetAMax_p_def Let_def by (rule ite [OF q [OF z1] q [OF z2]])
  have "0 \<le> d_mul (SetAMax_p AMax PulseRampDiv) (d_lit (988 / 1000))"
    using p by (simp add: d_mul_def d_lit_def round_to_nonneg)
  then show ?thesis by (auto simp: SetAMax_p_reduced_def)
qed

subsection \<open>Evaluating the floating-point computation\<close>

lemma floor_rat_numeral: "\<lfloor>numeral a / numeral b :: rat\<rfloor> = numeral a div numeral b"
  using floor_divide_of_int_eq [of "numeral a" "numeral b", where ?'a = rat] by simp

lemma ceiling_rat_numeral:
  "\<lceil>numeral a / numeral b :: rat\<rceil> = - (- numeral a div numeral b)"
  using floor_divide_of_int_eq [of "- numeral a" "numeral b", where ?'a = rat]
  by (simp add: ceiling_def)

lemmas float_eval =
  d_lit_def d_mul_def d_div_def to_float_def round_to_def ilog2_def bitlen.simps rne_def
  pow2_def Let_def floor_rat_numeral ceiling_rat_numeral

lemmas SetAMax_eval = SetAMax_p_def pulse_div_of_def ramp_div_of_def

text \<open>Products beyond \<open>int32_t\<close> do occur: with \<open>AMax = 2047\<close> and the divider byte 0xF0
  (\<open>pulse_div = 15\<close>, \<open>ramp_div = 0\<close>) the product at \<open>pdiv = 13\<close> is not below
  \<open>2^31\<close>.\<close>

lemma p_2047_0xF0: "SetAMax_p 2047 0xF0 = 524032"
  by (simp add: SetAMax_eval float_eval)

lemma p_reduced_2047_0xF0: "SetAMax_p_reduced 2047 0xF0 = 4141949 / 8"
  by (simp add: SetAMax_p_reduced_def p_2047_0xF0) (simp add: float_eval)

lemma product_out_of_range_example:
  "\<not> SetAMax_p_reduced 2047 0xF0 * 8 * 2 ^ 13 < 2 ^ 31"
  by (simp add: p_reduced_2047_0xF0)

subsection \<open>The candidate kept by the loop\<close>


lemma p_reduced_1000_0x76: "SetAMax_p_reduced 1000 0x76 = 247 / 16"
  by (simp add: SetAMax_p_reduced_def SetAMax_eval float_eval)

lemma upper_candidates_invalid:
  assumes "1 < d"
  shows "\<not> valid_spec (247 / 16) d"
proof -
  have "(2 :: rat) ^ 2 \<le> 2 ^ d" using assms by (intro power_increasing) simp_all
  then have "(494 :: rat) \<le> 247 / 16 * 8 * 2 ^ d" by simp
  then have "of_int 494 \<le> (247 / 16 * 8 * 2 ^ d :: rat)" by simp
  then have "494 \<le> \<lfloor>(247 / 16 * 8 * 2 ^ d :: rat)\<rfloor>" by (simp only: le_floor_iff)
  then show ?thesis by (simp add: valid_spec_def pmul_spec_def)
qed


lemma SetAMax_returns_0: "fst (SetAMax h oor spi u Motor AMax s) = 0"
  by (simp add: SetAMax_def Let_def split: prod.split)

lemma SetAMax_sent:
  "map sent (snd (snd (SetAMax h oor (logged spi) (u1, u2, u3) Motor AMax (s, [])))) =
     (let A = AMax AND 0x7FF;
          PulseRampDiv =
            snd (fst (Read429Bytes h spi (u1, u2, u3) (TMC429_IDX_PULSEDIV_RAMPDIV h Motor) s)) ! 1;
          pmpd = SetAMax_loop oor (SetAMax_p_reduced A PulseRampDiv) 0 (- 1, - 1)
      in [TMC429_IDX_PULSEDIV_RAMPDIV h Motor OR TMC429_READ h, u1, u2, u3,
          TMC429_IDX_PMUL_PDIV h Motor, 0, ucast (fst pmpd), ucast (snd pmpd),
          TMC429_IDX_AMAX h Motor, 0, ucast (drop_bit 8 A), ucast A])"
  by (simp add: SetAMax_def Read429Bytes_def Write429Bytes_def Write429U16_def
        ReadWrite429_logged Let_def sent_def split: prod.split)

lemma ucast_sentinel: "(ucast (- 1 :: i32) :: u8) = 0xFF"
proof -
  have "(ucast (- 1 :: i32) :: u8) = - 1"
    by (rule bit_word_eqI) (simp add: bit_simps)
  then show ?thesis by simp
qed

lemma pmul_zero: "SetAMax_pmul oor 0 d = - 128"
  by (simp add: SetAMax_pmul_def d_mul_def round_to_def d2i32_def to_zero_def)

text \<open>
  C2. \<open>SetAMax\<close> returns 0 for every input. On every input for which no \<open>pdiv\<close> in
  0..13 gives a \<open>pmul\<close> within 0..127, \<open>pm\<close> and \<open>pd\<close> keep the value -1 and the
  telegram to the PMUL/PDIV register carries the payload bytes \<open>0, 0xFF, 0xFF\<close>.
\<close>

theorem SetAMax_no_valid_pair:
  "fst (SetAMax h oor spi (u1, u2, u3) Motor AMax s) = 0 \<and>
   (let PulseRampDiv =
          snd (fst (Read429Bytes h spi (u1, u2, u3) (TMC429_IDX_PULSEDIV_RAMPDIV h Motor) s)) ! 1;
        p_reduced = SetAMax_p_reduced (AMax AND 0x7FF) PulseRampDiv
    in (\<forall>pdiv. pdiv \<le> 13 \<longrightarrow>
          \<not> (0 \<le>s SetAMax_pmul oor p_reduced pdiv \<and> SetAMax_pmul oor p_reduced pdiv \<le>s 127)) \<longrightarrow>
        SetAMax_loop oor p_reduced 0 (- 1, - 1) = (- 1, - 1) \<and>
        take 4 (drop 4 (map sent
          (snd (snd (SetAMax h oor (logged spi) (u1, u2, u3) Motor AMax (s, [])))))) =
          [TMC429_IDX_PMUL_PDIV h Motor, 0, 0xFF, 0xFF])"
proof -
  have "SetAMax_loop oor pr 0 (- 1, - 1) = (- 1, - 1)"
    if "\<forall>pdiv. pdiv \<le> 13 \<longrightarrow>
          \<not> (0 \<le>s SetAMax_pmul oor pr pdiv \<and> SetAMax_pmul oor pr pdiv \<le>s 127)" for pr
    using that by (intro loop_none) simp
  then show ?thesis
    by (simp add: SetAMax_returns_0 SetAMax_sent Let_def ucast_sentinel)
qed

lemma p_reduced_0: "SetAMax_p_reduced 0 b = 0"
  by (simp add: SetAMax_p_reduced_def SetAMax_p_def Let_def to_float_def d_div_def d_mul_def
        round_to_def)

theorem SetAMax_no_valid_pair_witness:
  "fst (SetAMax example_h oor_x86 scripted (0, 0, 0) 0 0 [0, 0, 0x37, 6]) = 0 \<and>
   take 4 (drop 4 (map sent
     (snd (snd (SetAMax example_h oor_x86 (logged scripted) (0, 0, 0) 0 0
                  ([0, 0, 0x37, 6], [])))))) = [0x12, 0, 0xFF, 0xFF]"
  using SetAMax_no_valid_pair [of example_h oor_x86 scripted 0 0 0 0 0 "[0, 0, 0x37, 6]"]
  by (simp add: Let_def p_reduced_0 pmul_zero word_sle_eq example_h_def)

subsection \<open>Bits of the 12-bit value\<close>

lemma m800: "(0x800 :: i32) = push_bit 11 1"
  by simp
lemma mF000: "(0xFFFFF000 :: i32) = NOT (mask 12)"
  by (simp add: mask_eq_exp_minus_1)

lemma and800: "(w :: i32) AND 0x800 \<noteq> 0 \<longleftrightarrow> bit w 11"
  by (metis and_exp_eq_0_iff_not_bit m800 push_bit_of_1)

lemma bit_raw16:
  "bit (push_bit 8 (ucast (b2 :: u8)) OR ucast (b3 :: u8) :: i32) n \<longleftrightarrow>
     (n < 8 \<and> bit b3 n) \<or> (8 \<le> n \<and> n < 16 \<and> bit b2 (n - 8))"
  by (auto simp: bit_simps dest: bit_imp_le_length)

lemma Int12_of_negative:
  assumes "bit (Read ! 2) 3"
  shows "Int12_of Read = sign_extend12 (Read ! 2) (Read ! 3)"
proof -
  define v :: i32 where "v = push_bit 8 (ucast (Read ! 2)) OR ucast (Read ! 3)"
  have bv: "bit v n \<longleftrightarrow> (n < 8 \<and> bit (Read ! 3) n) \<or> (8 \<le> n \<and> n < 16 \<and> bit (Read ! 2) (n - 8))" for n
    unfolding v_def by (rule bit_raw16)
  have b11: "bit v 11"
    using assms by (simp add: bv)
  then have "Int12_of Read = v OR NOT (mask 12)"
    by (simp add: Int12_of_def and800 mF000 flip: v_def)
  also have "\<dots> = signed_take_bit 11 v"
  proof (rule bit_word_eqI)
    fix n assume "n < LENGTH(32)"
    show "bit (v OR NOT (mask 12)) n = bit (signed_take_bit 11 v) n"
    proof (cases "n < 11")
      case True
      then show ?thesis by (simp add: bit_simps min_def)
    next
      case False
      then have "n = 11 \<or> 12 \<le> n" by arith
      with b11 \<open>n < LENGTH(32)\<close> show ?thesis by (auto simp: bit_simps min_def)
    qed
  qed
  finally show ?thesis by (simp add: v_def sign_extend12_def)
qed

lemma Int12_of_positive:
  assumes "Read ! 2 < 0x10" "\<not> bit (Read ! 2) 3"
  shows "Int12_of Read = sign_extend12 (Read ! 2) (Read ! 3)"
proof -
  define v :: i32 where "v = push_bit 8 (ucast (Read ! 2)) OR ucast (Read ! 3)"
  have bv: "bit v n \<longleftrightarrow> (n < 8 \<and> bit (Read ! 3) n) \<or> (8 \<le> n \<and> n < 16 \<and> bit (Read ! 2) (n - 8))" for n
    unfolding v_def by (rule bit_raw16)
  from assms(1) have "Read ! 2 < 2 ^ 4" by simp
  then have "take_bit 4 (Read ! 2) = Read ! 2"
    by (simp only: take_bit_eq_mask less_mask_eq)
  then have "\<not> bit (Read ! 2) k" if "4 \<le> k" for k
    using that by (metis bit_take_bit_iff not_le)
  then have hi: "\<not> bit (Read ! 2) k" if "3 \<le> k" for k
    using that assms(2) by (cases "k = 3") simp_all
  have b11: "\<not> bit v 11"
    using hi [of 3] by (simp add: bv)
  then have "Int12_of Read = v"
    by (simp add: Int12_of_def and800 flip: v_def)
  also have "\<dots> = signed_take_bit 11 v"
  proof (rule bit_word_eqI)
    fix n assume "n < LENGTH(32)"
    show "bit v n = bit (signed_take_bit 11 v) n"
    proof (cases "n < 11")
      case True
      then show ?thesis by (simp add: bit_simps min_def)
    next
      case False
      then have "\<not> bit v n" using hi [of "n - 8"] by (auto simp: bv)
      with b11 False \<open>n < LENGTH(32)\<close> show ?thesis by (simp add: bit_simps min_def)
    qed
  qed
  finally show ?thesis by (simp add: v_def sign_extend12_def)
qed

subsection \<open>The 16-bit and 24-bit write accessors\<close>

lemma mask8: "(0xFF :: i32) = mask 8"
  by (simp add: mask_eq_exp_minus_1)

lemma short_mid:
  "(ucast (signed_drop_bit 8 (V :: i32)) :: u8) = word_of_int (uint V mod 65536 div 256)"
proof -
  have "uint V mod 65536 div 256 = drop_bit 8 (take_bit 16 (uint V))"
    by (simp add: take_bit_eq_mod drop_bit_eq_div)
  then show ?thesis
    by (simp only:) (rule bit_word_eqI, auto simp: bit_simps)
qed

lemma byte_low: "(ucast ((V :: i32) AND 0xFF) :: u8) = word_of_int (uint V mod 256)"
proof -
  have "uint V mod 256 = take_bit 8 (uint V)"
    by (simp add: take_bit_eq_mod)
  then show ?thesis
    by (simp only: mask8) (rule bit_word_eqI, auto simp: bit_simps)
qed

lemma int_high:
  "(ucast (signed_drop_bit 16 (V :: i32)) :: u8) = word_of_int (uint V mod 16777216 div 65536)"
proof -
  have "uint V mod 16777216 div 65536 = drop_bit 16 (take_bit 24 (uint V))"
    by (simp add: take_bit_eq_mod drop_bit_eq_div)
  then show ?thesis
    by (simp only:) (rule bit_word_eqI, auto simp: bit_simps)
qed

lemma int_mid:
  "(ucast (signed_drop_bit 8 (V :: i32)) :: u8) =
     word_of_int (uint V mod 16777216 div 256 mod 256)"
proof -
  have "uint V mod 16777216 div 256 mod 256 = take_bit 8 (drop_bit 8 (take_bit 24 (uint V)))"
    by (simp add: take_bit_eq_mod drop_bit_eq_div)
  then show ?thesis
    by (simp only:) (rule bit_word_eqI, auto simp: bit_simps)
qed

lemma Write429Short_sent:
  "map sent (snd (Write429Short (logged spi) Address Value (s, []))) =
     [Address, 0, word_of_int (uint Value mod 65536 div 256), word_of_int (uint Value mod 256)]"
proof -
  have "map sent (snd (Write429Short (logged spi) Address Value (s, []))) =
     [Address, 0, ucast (signed_drop_bit 8 Value), ucast (Value AND 0xFF)]"
    by (simp add: Write429Short_def ReadWrite429_logged sent_def split: prod.split)
  then show ?thesis by (simp only: short_mid byte_low)
qed

lemma Write429Int_sent:
  "map sent (snd (Write429Int (logged spi) Address Value (s, []))) =
     [Address, word_of_int (uint Value mod 16777216 div 65536),
      word_of_int (uint Value mod 16777216 div 256 mod 256), word_of_int (uint Value mod 256)]"
proof -
  have "map sent (snd (Write429Int (logged spi) Address Value (s, []))) =
     [Address, ucast (signed_drop_bit 16 Value), ucast (signed_drop_bit 8 Value),
      ucast (Value AND 0xFF)]"
    by (simp add: Write429Int_def ReadWrite429_logged sent_def split: prod.split)
  then show ?thesis by (simp only: int_high int_mid byte_low)
qed

lemma uint_of_small: "0 \<le> v \<Longrightarrow> v < 2 ^ 32 \<Longrightarrow> uint (word_of_int v :: i32) = v"
  by (simp add: uint_word_of_int take_bit_eq_mod)

text \<open>
  C6. For every \<open>v\<close> in 0..65535, \<open>Write429Short\<close> sends the payload bytes
  \<open>0, v div 256, v mod 256\<close>; for every \<open>v\<close> below \<open>2^24\<close>, \<open>Write429Int\<close> sends
  \<open>v div 65536, v div 256 mod 256, v mod 256\<close>; for every 32-bit value the telegram is
  that of the value reduced modulo \<open>2^16\<close> resp. \<open>2^24\<close>.
\<close>

theorem Write429Short_Int_payload:
  "(0 \<le> v \<and> v < 65536 \<longrightarrow>
      map sent (snd (Write429Short (logged spi) Address (word_of_int v) (s, []))) =
        [Address, 0, word_of_int (v div 256), word_of_int (v mod 256)]) \<and>
   (0 \<le> v \<and> v < 16777216 \<longrightarrow>
      map sent (snd (Write429Int (logged spi) Address (word_of_int v) (s, []))) =
        [Address, word_of_int (v div 65536), word_of_int (v div 256 mod 256),
         word_of_int (v mod 256)]) \<and>
   map sent (snd (Write429Short (logged spi) Address Value (s, []))) =
     [Address, 0, word_of_int (uint Value mod 65536 div 256),
      word_of_int (uint Value mod 65536 mod 256)] \<and>
   map sent (snd (Write429Int (logged spi) Address Value (s, []))) =
     [Address, word_of_int (uint Value mod 16777216 div 65536),
      word_of_int (uint Value mod 16777216 div 256 mod 256),
      word_of_int (uint Value mod 16777216 mod 256)] \<and>
   map sent (snd (Write429Short (logged spi) Address Value (s, []))) =
     map sent (snd (Write429Short (logged spi) Address
                      (word_of_int (uint Value mod 65536)) (s, []))) \<and>
   map sent (snd (Write429Int (logged spi) Address Value (s, []))) =
     map sent (snd (Write429Int (logged spi) Address
                      (word_of_int (uint Value mod 16777216)) (s, [])))"
proof -
  have a: "uint Value mod 65536 mod 256 = uint Value mod 256"
    by (simp add: mod_mod_cancel)
  have b: "uint Value mod 16777216 mod 256 = uint Value mod 256"
    by (simp add: mod_mod_cancel)
  have s: "uint (word_of_int v :: i32) = v" if "0 \<le> v" "v < 65536" for v
    using that by (intro uint_of_small) simp_all
  have i: "uint (word_of_int v :: i32) = v" if "0 \<le> v" "v < 16777216" for v
    using that by (intro uint_of_small) simp_all
  have ts: "uint (word_of_int (uint Value mod 65536) :: i32) = uint Value mod 65536"
    by (rule s) simp_all
  have ti: "uint (word_of_int (uint Value mod 16777216) :: i32) = uint Value mod 16777216"
    by (rule i) simp_all
  show ?thesis
    by (simp only: Write429Short_sent Write429Int_sent a b ts ti) (simp add: s i)
qed

theorem Write429Short_Int_payload_witness:
  "map sent (snd (Write429Short (logged loopback) 0x0C 0x1234 ((), []))) =
     [0x0C, 0, 0x12, 0x34] \<and>
   map sent (snd (Write429Int (logged loopback) 0x0C 0x123456 ((), []))) =
     [0x0C, 0x12, 0x34, 0x56]"
  using Write429Short_Int_payload [of "0x1234" loopback "0x0C" "()"]
    Write429Short_Int_payload [of "0x123456" loopback "0x0C" "()"]
  by simp

subsection \<open>The mode setters\<close>

text \<open>
  C7. \<open>Set429RampMode\<close> makes two exchanges. The payload bytes received in the first
  are the contents \<open>(h, m, old_mode)\<close> of the register; the second telegram is
  \<open>(address, h, m, RampMode)\<close>. \<open>Set429SwitchMode\<close> sends
  \<open>(address, h, SwitchMode, old low byte)\<close>: it keeps telegram bytes 1 and 3 and
  replaces the middle payload byte.
\<close>

theorem Set429RampMode_SwitchMode_preserve:
  "(let tr = snd (Set429RampMode h (logged spi) (u1, u2, u3) Axis RampMode (s, []))
    in length tr = 8 \<and>
       map sent (take 4 tr) =
         [TMC429_IDX_REFCONF_RM h Axis OR TMC429_READ h, u1, u2, u3] \<and>
       map sent (drop 4 tr) =
         [TMC429_IDX_REFCONF_RM h Axis, received (tr ! 1), received (tr ! 2), RampMode]) \<and>
   (let tr = snd (Set429SwitchMode h (logged spi) (u1, u2, u3) Axis SwitchMode (s, []))
    in length tr = 8 \<and>
       map sent (take 4 tr) =
         [TMC429_IDX_REFCONF_RM h Axis OR TMC429_READ h, u1, u2, u3] \<and>
       map sent (drop 4 tr) =
         [TMC429_IDX_REFCONF_RM h Axis, received (tr ! 1), SwitchMode, received (tr ! 3)]) \<and>
   fst (Set429RampMode h (logged spi) (u1, u2, u3) Axis RampMode (s, [])) =
     Set429RampMode h spi (u1, u2, u3) Axis RampMode s \<and>
   fst (Set429SwitchMode h (logged spi) (u1, u2, u3) Axis SwitchMode (s, [])) =
     Set429SwitchMode h spi (u1, u2, u3) Axis SwitchMode s"
  by (simp add: Set429RampMode_def Set429SwitchMode_def ReadWrite429_logged Let_def
        sent_def received_def split: prod.split)

subsection \<open>Reading a single byte\<close>

lemma ReadWrite429_shape:
  "\<exists>r0 r1 r2 r3 s'. ReadWrite429 spi W s = ([r0, r1, r2, r3], s')"
  by (simp add: ReadWrite429_def split: prod.split)

text \<open>
  C9. For every \<open>Index\<close> in 0..2, \<open>Read429SingleByte\<close> returns byte \<open>Index + 1\<close> of
  the response telegram, which is payload byte \<open>Index\<close> of the register, and the access
  is within the four bytes of \<open>Read\<close>. \<open>Index = 3\<close> is an access to \<open>Read[4]\<close>, one
  past the last element.
\<close>

theorem Read429SingleByte_in_bounds:
  "(unat Index \<le> 2 \<longrightarrow>
      unat Index + 1 < length (fst (ReadWrite429 spi [Address OR TMC429_READ h, u1, u2, u3] s)) \<and>
      fst (Read429SingleByte h spi (u1, u2, u3) Address Index s) =
        Some (fst (ReadWrite429 spi [Address OR TMC429_READ h, u1, u2, u3] s) ! (unat Index + 1)) \<and>
      fst (Read429SingleByte h spi (u1, u2, u3) Address Index s) =
        Some (snd (fst (Read429Bytes h spi (u1, u2, u3) Address s)) ! unat Index)) \<and>
   length (fst (ReadWrite429 spi [Address OR TMC429_READ h, u1, u2, u3] s)) = 4 \<and>
   fst (Read429SingleByte h spi (u1, u2, u3) Address 3 s) = None"
proof -
  obtain r0 r1 r2 r3 s' where
    rw: "ReadWrite429 spi [Address OR TMC429_READ h, u1, u2, u3] s = ([r0, r1, r2, r3], s')"
    using ReadWrite429_shape [of spi "[Address OR TMC429_READ h, u1, u2, u3]" s] by auto
  have "[r0, r1, r2, r3] ! (unat Index + 1) = [r1, r2, r3] ! unat Index"
    by simp
  moreover have "unat (3 :: u8) = 3"
    by simp
  ultimately show ?thesis
    by (simp add: Read429SingleByte_def Read429Bytes_def rw)
qed

theorem Read429SingleByte_in_bounds_witness:
  "unat (2 :: u8) \<le> 2 \<and>
   fst (Read429SingleByte example_h scripted (0, 0, 0) 0x14 2 [9, 0x0A, 0x0B, 0x0C]) = Some 0x0C"
  using Read429SingleByte_in_bounds [of 2 scripted "0x14" example_h 0 0 0 "[9, 0x0A, 0x0B, 0x0C]"]
  by (simp add: ReadWrite429_def scripted_def)

subsection \<open>Sign extension of the 12-bit read\<close>

text \<open>
  C4, as stated, fails: the payload bytes \<open>0x10, 0x00\<close> have the low 12 bits zero, so
  their sign extension is 0, but \<open>Read429Int12\<close> returns 4096. The function combines all
  16 bits of the two bytes and only sets the bits from 12 upwards when bit 11 is set; it
  never clears them.
\<close>

theorem Read429Int12_not_masked_counterexample:
  "fst (Read429Int12 example_h scripted (0, 0, 0) 0 [0, 0, 0x10, 0x00]) = 4096 \<and>
   sign_extend12 0x10 0x00 = 0 \<and>
   fst (Read429Int12 example_h scripted (0, 0, 0) 0 [0, 0, 0x10, 0x00]) \<noteq>
     sign_extend12 0x10 0x00"
  by (simp add: Read429Int12_def ReadWrite429_def scripted_def Int12_of_def sign_extend12_def)

text \<open>
  C4, amended. For every pair of payload bytes whose bits 12..15 are zero (the upper
  half of the first byte, as in the value of a 12-bit register) or whose bit 11 is set,
  \<open>Read429Int12\<close> returns the low 12 bits of the two bytes sign-extended from bit 11;
  the payload \<open>0x0F, 0xFF\<close> decodes to -1 and \<open>0x00, 0x01\<close> to 1.
\<close>

theorem Read429Int12_sign_extends:
  "(let Read = fst (ReadWrite429 spi [Address OR TMC429_READ h, u1, u2, u3] s)
    in Read ! 2 < 0x10 \<or> bit (Read ! 2) 3 \<longrightarrow>
       fst (Read429Int12 h spi (u1, u2, u3) Address s) = sign_extend12 (Read ! 2) (Read ! 3)) \<and>
   sign_extend12 0x0F 0xFF = - 1 \<and> sign_extend12 0x00 0x01 = 1"
proof -
  have "Int12_of Read = sign_extend12 (Read ! 2) (Read ! 3)"
    if "Read ! 2 < 0x10 \<or> bit (Read ! 2) 3" for Read
    using that Int12_of_negative [of Read] Int12_of_positive [of Read] by blast
  then show ?thesis
    by (simp add: Read429Int12_def Let_def sign_extend12_def split: prod.split)
qed

theorem Read429Int12_sign_extends_witness:
  "fst (Read429Int12 example_h scripted (0, 0, 0) 0 [0, 0, 0x0F, 0xFF]) = - 1 \<and>
   fst (Read429Int12 example_h scripted (0, 0, 0) 0 [0, 0, 0x00, 0x01]) = 1"
  using Read429Int12_sign_extends [of scripted 0 example_h 0 0 0 "[0, 0, 0x0F, 0xFF]"]
    Read429Int12_sign_extends [of scripted 0 example_h 0 0 0 "[0, 0, 0x00, 0x01]"]
  by (simp add: ReadWrite429_def scripted_def Let_def)

subsection \<open>The read flag\<close>



subsection \<open>The acceleration written by SetAMax\<close>









subsection \<open>The divider byte 0x76\<close>

text \<open>
  C8, as stated, fails: \<open>pulse_div\<close> is the high half of the divider byte and
  \<open>ramp_div\<close> the low half, so 0x76 does not decode to \<open>pulse_div = 6\<close>, \<open>ramp_div = 7\<close>.
\<close>

theorem divider_byte_0x76_counterexample:
  "\<not> (pulse_div_of 0x76 = 6 \<and> ramp_div_of 0x76 = 7)"
  by (simp add: pulse_div_of_def ramp_div_of_def)

lemma loop_1000_0x76: "SetAMax_loop oor (SetAMax_p_reduced 1000 0x76) 0 (- 1, - 1) = (247, 1)"
proof -
  obtain y where y: "0 \<le> y" and pr: "SetAMax_p_reduced 1000 0x76 = to_float y"
    using p_reduced_float by blast
  have fy: "to_float y = 247 / 16"
    using pr by (simp add: p_reduced_1000_0x76)
  have r: "to_float y * 8 * 2 ^ d < 2 ^ 31" if "d \<le> 13" for d :: nat
  proof -
    have "(2 :: rat) ^ d \<le> 2 ^ 13" using that by (intro power_increasing) simp_all
    then show ?thesis by (simp add: fy)
  qed
  have v: "(0 \<le>s SetAMax_pmul oor (to_float y) d \<and> SetAMax_pmul oor (to_float y) d \<le>s 127)
             \<longleftrightarrow> valid_spec (247 / 16) d" if "d \<le> 13" for d
    using valid_in_range [OF y r [OF that], of oor] by (simp add: fy)
  have v1: "valid_spec (247 / 16) 1"
    by (simp add: valid_spec_def pmul_spec_def)
  have "SetAMax_loop oor (to_float y) 0 (- 1, - 1) =
          (SetAMax_pmul oor (to_float y) 1 + 128, of_nat 1)"
    using v1 upper_candidates_invalid by (intro loop_some) (simp_all add: v)
  also have "SetAMax_pmul oor (to_float y) 1 + 128 = word_of_int (pmul_spec (to_float y) 1 + 128)"
    using v1 by (intro pm_of_valid [OF y]) (simp add: fy)
  also have "pmul_spec (to_float y) 1 = 119"
    by (simp add: fy pmul_spec_def)
  finally show ?thesis by (simp add: pr)
qed

text \<open>
  C8, amended. The divider byte 0x76 decodes to \<open>pulse_div = 7\<close> and \<open>ramp_div = 6\<close>;
  whenever the divider byte read by \<open>SetAMax\<close> is 0x76 and \<open>AMax = 1000\<close>, the telegram to
  the PMUL/PDIV register carries \<open>pm = 247\<close>, \<open>pd = 1\<close>, whatever the transport, its
  state, the axis, the header constants and the target's out-of-range conversion are.
\<close>

theorem SetAMax_1000_0x76:
  "pulse_div_of 0x76 = 7 \<and> ramp_div_of 0x76 = 6 \<and>
   (snd (fst (Read429Bytes h spi (u1, u2, u3) (TMC429_IDX_PULSEDIV_RAMPDIV h Motor) s)) ! 1 = 0x76
      \<longrightarrow>
    take 4 (drop 4 (map sent (snd (snd
      (SetAMax h oor (logged spi) (u1, u2, u3) Motor 1000 (s, [])))))) =
      [TMC429_IDX_PMUL_PDIV h Motor, 0, 247, 1])"
proof -
  have fields: "pulse_div_of 0x76 = 7" "ramp_div_of 0x76 = 6"
    by (simp_all add: pulse_div_of_def ramp_div_of_def)
  have m: "(1000 :: u32) AND 0x7FF = 1000"
    by simp
  have "take 4 (drop 4 (map sent (snd (snd
          (SetAMax h oor (logged spi) (u1, u2, u3) Motor 1000 (s, [])))))) =
          [TMC429_IDX_PMUL_PDIV h Motor, 0, 247, 1]"
    if "snd (fst (Read429Bytes h spi (u1, u2, u3) (TMC429_IDX_PULSEDIV_RAMPDIV h Motor) s)) ! 1
          = 0x76"
    using that by (simp add: SetAMax_sent Let_def loop_1000_0x76)
  with fields show ?thesis by blast
qed

theorem SetAMax_1000_0x76_witness:
  "snd (fst (Read429Bytes example_h scripted (0, 0, 0) 0x38 [5, 0, 0x76, 6])) ! 1 = 0x76 \<and>
   take 4 (drop 4 (map sent (snd (snd
      (SetAMax example_h oor_sat (logged scripted) (0, 0, 0) 1 1000 ([5, 0, 0x76, 6], [])))))) =
      [0x32, 0, 247, 1]"
  using SetAMax_1000_0x76 [of example_h scripted 0 0 0 1 "[5, 0, 0x76, 6]" oor_sat]
  by (simp add: example_h_def Read429Bytes_def ReadWrite429_def scripted_def)

end
